theory Spec2Isabelle
  imports Complex_Main "HOL-Library.Multiset" "HOL-Library.Monad_Syntax" "HOL-Library.Extended_Nat"
begin

section \<open>The data model of tsp.cc\<close>

text \<open>
  Vertices and all other C++ \<open>int\<close> and \<open>long\<close> values of the program are indices or
  counters that never go below zero, so they are natural numbers here. The type
  \<open>float\<close> of the costs is the type parameter \<open>'a\<close> wherever the code only compares
  costs (the spanning tree and the traversal), and \<open>real\<close> with exact addition where
  the code adds them (the dynamic programme and the cost of a tour): rounding is not
  modelled. A vector of vectors of \<open>float\<close> is a list of rows.
\<close>

record 'a Edge =
  head :: nat
  tail :: nat
  cost :: 'a

text \<open>The constructor \<open>Edge(h, t, c)\<close> and \<open>operator<\<close>, which compares costs only.\<close>

definition Edge :: "nat \<Rightarrow> nat \<Rightarrow> 'a \<Rightarrow> 'a Edge" where
  "Edge h t c = \<lparr>head = h, tail = t, cost = c\<rparr>"


record UnionFind =
  parent :: "nat list"
  rank :: "nat list"

datatype error = ReadPastEnd | EmptyStack | UninitializedRead

section \<open>UnionFind\<close>

definition make_set :: "nat \<Rightarrow> UnionFind \<Rightarrow> UnionFind" where
  "make_set i uf = uf\<lparr>parent := (parent uf)[i := i], rank := (rank uf)[i := 0]\<rparr>"

text \<open>The constructor \<open>UnionFind(n)\<close>: two vectors of length \<open>n\<close>, then \<open>make_set\<close> on each index.\<close>

definition UnionFind_init :: "nat \<Rightarrow> UnionFind" where
  "UnionFind_init n = fold make_set [0..<n] \<lparr>parent = replicate n 0, rank = replicate n 0\<rparr>"

text \<open>
  \<open>find_set\<close> recurses along the parent links and has no bound of its own: on a parent
  vector with a cycle it does not return, which is the value \<open>None\<close>. The assignment
  \<open>parent[i] = find_set(parent[i])\<close> is path compression; the state after the call is
  returned with the result.
\<close>

partial_function (option) find_set :: "UnionFind \<Rightarrow> nat \<Rightarrow> (nat \<times> UnionFind) option" where
  [code]: "find_set uf i =
     (if parent uf ! i \<noteq> i then
        Option.bind (find_set uf (parent uf ! i))
          (\<lambda>(r, uf'). Some (r, uf'\<lparr>parent := (parent uf')[i := r]\<rparr>))
      else Some (parent uf ! i, uf))"

definition join :: "nat \<Rightarrow> nat \<Rightarrow> UnionFind \<Rightarrow> UnionFind option" where
  "join i j uf =
     Option.bind (find_set uf i) (\<lambda>(i', uf1).
     Option.bind (find_set uf1 j) (\<lambda>(j', uf2).
       Some (if rank uf2 ! i' > rank uf2 ! j' then uf2\<lparr>parent := (parent uf2)[j' := i']\<rparr>
             else let uf3 = uf2\<lparr>parent := (parent uf2)[i' := j']\<rparr> in
               if rank uf3 ! i' = rank uf3 ! j'
               then uf3\<lparr>rank := (rank uf3)[j' := rank uf3 ! j' + 1]\<rparr>
               else uf3)))"

section \<open>Kruskal's minimum spanning tree\<close>

text \<open>The two nested loops that collect the edges \<open>(i, j)\<close> with \<open>i < j < n\<close>.\<close>

definition all_edges :: "nat \<Rightarrow> 'a list list \<Rightarrow> 'a Edge list" where
  "all_edges n c = concat (map (\<lambda>i. map (\<lambda>j. Edge i j (c ! i ! j)) [i + 1..<n]) [0..<n])"


text \<open>
  The scan \<open>for (int i = 0; size < n - 1; ++i)\<close>, with \<open>sz\<close> for the counter \<open>size\<close>. The loop has no test of \<open>i\<close> against
  the number of edges; reading \<open>edges[i]\<close> past the end is the error \<open>ReadPastEnd\<close>.
\<close>

function mst_loop ::
  "nat \<Rightarrow> 'a Edge list \<Rightarrow> nat \<Rightarrow> nat \<Rightarrow> 'a Edge list \<Rightarrow> UnionFind \<Rightarrow> (error + 'a Edge list) option"
where
  "mst_loop n edges i sz tree forest =
     (if sz < n - 1 then
        if i < length edges then
          let u = head (edges ! i); v = tail (edges ! i) in
          Option.bind (find_set forest u) (\<lambda>(ru, f1).
          Option.bind (find_set f1 v) (\<lambda>(rv, f2).
            if ru \<noteq> rv then
              Option.bind (join u v f2) (\<lambda>f3.
                mst_loop n edges (i + 1) (sz + 1) (tree @ [edges ! i]) f3)
            else mst_loop n edges (i + 1) sz tree f2))
        else Some (Inl ReadPastEnd)
      else Some (Inr tree))"
  by pat_completeness auto
termination
  by (relation "measure (\<lambda>(n, edges, i, sz, tree, forest). length edges - i)") auto

declare mst_loop.simps [simp del]

definition mst ::
  "(('a::linorder) Edge list \<Rightarrow> 'a Edge list) \<Rightarrow> nat \<Rightarrow> 'a list list \<Rightarrow> (error + 'a Edge list) option"
where
  "mst srt n c = mst_loop n (srt (all_edges n c)) 0 0 [] (UnionFind_init n)"

section \<open>The metric 2-approximation\<close>

text \<open>
  The adjacency lists of the tree: for \<open>i < n - 1\<close>, \<open>tree[i]\<close> adds its tail to the list
  of its head and its head to the list of its tail.
\<close>

definition add_adjacent :: "'a Edge list \<Rightarrow> nat \<Rightarrow> nat list list \<Rightarrow> nat list list" where
  "add_adjacent tree i adj =
     (let u = head (tree ! i); v = tail (tree ! i);
          adj1 = adj[u := adj ! u @ [v]]
      in adj1[v := adj1 ! v @ [u]])"

definition adjacency_lists :: "nat \<Rightarrow> 'a Edge list \<Rightarrow> nat list list" where
  "adjacency_lists n tree = fold (add_adjacent tree) [0..<n - 1] (replicate n [])"

text \<open>
  The traversal \<open>while (tour.size() < n)\<close>. The stack \<open>open\<close> is a list with its top at
  the head; pushing the neighbours of \<open>u\<close> in order leaves the last of them on top.
  \<open>open.top()\<close> on an empty stack is the error \<open>EmptyStack\<close>.
\<close>

function metric_loop ::
  "nat \<Rightarrow> nat list list \<Rightarrow> nat list \<Rightarrow> bool list \<Rightarrow> nat list \<Rightarrow> error + nat list"
where
  "metric_loop n adj tour visited opn =
     (if length tour < n then
        (case opn of
           [] \<Rightarrow> Inl EmptyStack
         | u # rest \<Rightarrow>
             if \<not> visited ! u
             then metric_loop n adj (tour @ [u]) (visited[u := True]) (rev (adj ! u) @ rest)
             else metric_loop n adj tour visited rest)
      else Inr tour)"
  by pat_completeness auto
termination
  by (relation "measures [\<lambda>(n, adj, tour, visited, opn). n - length tour,
                          \<lambda>(n, adj, tour, visited, opn). length opn]") auto

declare metric_loop.simps [simp del]

definition metric_tour :: "nat \<Rightarrow> 'a Edge list \<Rightarrow> error + nat list" where
  "metric_tour n tree =
     (case metric_loop n (adjacency_lists n tree) [] (replicate n False) [0] of
        Inl e \<Rightarrow> Inl e
      | Inr tour \<Rightarrow> Inr (tour @ [0]))"

definition metric_tsp ::
  "(('a::linorder) Edge list \<Rightarrow> 'a Edge list) \<Rightarrow> nat \<Rightarrow> 'a list list \<Rightarrow> (error + nat list) option"
where
  "metric_tsp srt n c =
     Option.bind (mst srt n c)
       (\<lambda>r. case r of Inl e \<Rightarrow> Some (Inl e) | Inr tree \<Rightarrow> Some (metric_tour n tree))"

section \<open>The exact solver\<close>

definition FLT_MAX :: real where
  "FLT_MAX = 340282346638528859811704183484516925440"

text \<open>The vertices \<open>u < n\<close> with \<open>s & (1 << u)\<close>, in increasing order.\<close>

definition subset_of :: "nat \<Rightarrow> nat \<Rightarrow> nat list" where
  "subset_of n s = filter (\<lambda>u. bit s u) [0..<n]"

text \<open>The inner loop over \<open>j\<close> in \<open>subset\<close>, one step: a smaller sum replaces the minimum.\<close>

definition min_step :: "real list list \<Rightarrow> real list list \<Rightarrow> nat \<Rightarrow> nat \<Rightarrow> nat \<Rightarrow> real \<Rightarrow> real" where
  "min_step c opt t i j min_subpath =
     (if j \<noteq> i \<and> opt ! t ! j + c ! j ! i < min_subpath
      then opt ! t ! j + c ! j ! i else min_subpath)"

text \<open>
  The body of the loop over \<open>i\<close>: the entry \<open>opt[s][i]\<close>. \<open>s & ~(1 << i)\<close> clears bit
  \<open>i\<close> of \<open>s\<close>.
\<close>

definition tsp_entry :: "nat \<Rightarrow> real list list \<Rightarrow> nat \<Rightarrow> nat \<Rightarrow> real list list \<Rightarrow> real list list" where
  "tsp_entry n c s i opt =
     (let subset = subset_of n s in
      if length subset = 2 then opt[s := (opt ! s)[i := c ! 0 ! i]]
      else if length subset > 2 then
        (let t = unset_bit i s;
             min_subpath = fold (min_step c opt t i) subset FLT_MAX
         in opt[s := (opt ! s)[i := min_subpath]])
      else opt)"

text \<open>
  The table: \<open>nsub = 1 << n\<close> rows of \<open>n\<close> zeros, filled for \<open>s = 1, 3, 5, ...\<close> below
  \<open>nsub\<close> and \<open>i = 1, ..., n - 1\<close>.
\<close>

definition tsp_table :: "nat \<Rightarrow> real list list \<Rightarrow> real list list" where
  "tsp_table n c =
     fold (\<lambda>s opt. fold (tsp_entry n c s) [1..<n] opt)
       (map (\<lambda>k. 2 * k + 1) [0..<2 ^ n div 2])
       (replicate (2 ^ n) (replicate n 0))"

text \<open>
  The choice of the next vertex: the loop over \<open>k\<close> with its running minimum and
  \<open>best_k\<close>, which the code declares without a value; \<open>None\<close> is that state.
\<close>

definition best_step ::
  "real list list \<Rightarrow> real list list \<Rightarrow> bool list \<Rightarrow> nat \<Rightarrow> nat \<Rightarrow> nat \<Rightarrow> real \<times> nat option \<Rightarrow> real \<times> nat option"
where
  "best_step c opt selected s j k st =
     (if \<not> selected ! k \<and> opt ! s ! k + c ! k ! j < fst st
      then (opt ! s ! k + c ! k ! j, Some k) else st)"

text \<open>
  The reconstruction \<open>for (int i = 0; i < n - 1; ++i)\<close>, with \<open>i\<close> counted down as the
  number of rounds left. Pushing \<open>best_k\<close> when no \<open>k\<close> has set it is the error
  \<open>UninitializedRead\<close>.
\<close>

fun tsp_rounds ::
  "nat \<Rightarrow> real list list \<Rightarrow> real list list \<Rightarrow> nat \<Rightarrow> nat list \<Rightarrow> bool list \<Rightarrow> nat \<Rightarrow> error + nat list"
where
  "tsp_rounds n c opt 0 tour selected s = Inr tour"
| "tsp_rounds n c opt (Suc m) tour selected s =
     (let j = last tour in
      case snd (fold (best_step c opt selected s j) [0..<n] (FLT_MAX, None)) of
        None \<Rightarrow> Inl UninitializedRead
      | Some best_k \<Rightarrow>
          tsp_rounds n c opt m (tour @ [best_k]) (selected[best_k := True]) (s - 2 ^ best_k))"

definition tsp :: "nat \<Rightarrow> real list list \<Rightarrow> error + nat list" where
  "tsp n c =
     (case tsp_rounds n c (tsp_table n c) (n - 1) [0] ((replicate n False)[0 := True]) (2 ^ n - 1) of
        Inl e \<Rightarrow> Inl e
      | Inr tour \<Rightarrow> Inr (tour @ [0]))"

section \<open>The cost of a tour\<close>

text \<open>
  The driver's loop \<open>for (int i = 1; i <= n; ++i) total_cost += c[tour[i - 1]][tour[i % n]]\<close>.
\<close>

definition total_cost :: "nat \<Rightarrow> real list list \<Rightarrow> nat list \<Rightarrow> real" where
  "total_cost n c tour =
     fold (\<lambda>i total. total + c ! (tour ! (i - 1)) ! (tour ! (i mod n))) [1..<n + 1] 0"

section \<open>Inputs and reference notions\<close>

text \<open>The cost matrix of the driver \<open>main\<close>, with \<open>n = 4\<close>.\<close>

definition demo_costs :: "real list list" where
  "demo_costs = [[0, 1, 3, 2], [1, 0, 2, 4], [3, 2, 0, 3], [2, 4, 3, 0]]"

text \<open>
  A second symmetric matrix on four vertices. Every entry off the diagonal is 1 or 2, so
  it also satisfies the triangle inequality.
\<close>

definition tied_costs :: "real list list" where
  "tied_costs = [[0, 1, 1, 1], [1, 0, 1, 1], [1, 1, 0, 2], [1, 1, 2, 0]]"

text \<open>
  The Held-Karp recurrence in the words of the specification, read off a table \<open>opt\<close>:
  for \<open>s = {0, i}\<close> the entry is \<open>cost[0][i]\<close>, for a larger \<open>s\<close> it is the minimum over
  \<open>j\<close> in \<open>s\<close> with \<open>j \<noteq> i\<close> and \<open>j \<noteq> 0\<close> of \<open>opt[s \ {i}][j] + cost[j][i]\<close>.
\<close>

definition held_karp_entry :: "nat \<Rightarrow> real list list \<Rightarrow> real list list \<Rightarrow> nat \<Rightarrow> nat \<Rightarrow> real" where
  "held_karp_entry n c opt s i =
     (if length (subset_of n s) = 2 then c ! 0 ! i
      else Min (set (map (\<lambda>j. opt ! unset_bit i s ! j + c ! j ! i)
                      (filter (\<lambda>j. j \<noteq> i \<and> j \<noteq> 0) (subset_of n s)))))"

section \<open>The forest of a UnionFind\<close>

text \<open>
  \<open>reaches p i r\<close>: following the parent links of \<open>p\<close> from \<open>i\<close> arrives, after finitely
  many steps, at \<open>r\<close>, which is its own parent. \<open>uf_inv\<close> is the forest invariant on the
  universe of the indices of \<open>parent\<close>, \<open>same_set\<close> says that two elements share their root,
  \<open>roots\<close> is the set of the roots, and \<open>relink a b\<close> is what happens to a root when the
  root \<open>a\<close> is made a child of \<open>b\<close>.
\<close>

inductive reaches :: "nat list \<Rightarrow> nat \<Rightarrow> nat \<Rightarrow> bool" for p :: "nat list" where
  at_root: "i < length p \<Longrightarrow> p ! i = i \<Longrightarrow> reaches p i i"
| by_link: "i < length p \<Longrightarrow> p ! i \<noteq> i \<Longrightarrow> reaches p (p ! i) r \<Longrightarrow> reaches p i r"

definition uf_inv :: "UnionFind \<Rightarrow> bool" where
  "uf_inv uf = (length (rank uf) = length (parent uf) \<and>
     (\<forall>i < length (parent uf). \<exists>r. reaches (parent uf) i r))"

definition same_set :: "UnionFind \<Rightarrow> nat \<Rightarrow> nat \<Rightarrow> bool" where
  "same_set uf i j = (\<exists>r. reaches (parent uf) i r \<and> reaches (parent uf) j r)"

definition relink :: "nat \<Rightarrow> nat \<Rightarrow> nat \<Rightarrow> nat" where
  "relink a b r = (if r = a then b else r)"

definition roots :: "UnionFind \<Rightarrow> nat set" where
  "roots uf = {r. r < length (parent uf) \<and> parent uf ! r = r}"

section \<open>Graphs of edges\<close>

text \<open>
  Notions of the claims about the spanning tree, none of them in the source. An edge is
  read as the pair \<open>endpoints\<close> of its head and tail; \<open>joined E\<close> relates the vertices
  that a path of edges of \<open>E\<close>, taken in either direction, connects. \<open>connects n es\<close>: the
  edges connect all vertices below \<open>n\<close>. \<open>acyclic_edges es\<close>: no two edges have the same
  endpoints and no edge joins two vertices that the other edges already join, that is,
  no edge lies on a cycle. \<open>valid_edges\<close>: all endpoints are vertices. \<open>complete\<close>: every
  pair of vertices is an edge. \<open>tracks\<close>: a UnionFind whose sets are the components of
  the edges of \<open>tree\<close>. \<open>scan\<close> is the loop of \<open>mst\<close> with the component test in place of
  the UnionFind; \<open>mst_loop\<close> is proved equal to it below.
\<close>

definition endpoints :: "'a Edge \<Rightarrow> nat \<times> nat" where
  "endpoints e = (head e, tail e)"

definition links :: "'a Edge list \<Rightarrow> (nat \<times> nat) set" where
  "links es = set (map endpoints es)"








section \<open>Spanning trees and their weight\<close>



section \<open>A graph that only an infinite cost connects\<close>



section \<open>Tours and the traversal\<close>





section \<open>Costs of tours and paths\<close>







section \<open>The cost of the traversal\<close>



section \<open>Costs within the range of the sentinel\<close>






section \<open>The driver's graph and other concrete runs\<close>

text \<open>
  C1, at a failing input. On \<open>tied_costs\<close> the exact solver returns the tour
  0, 1, 2, 3, 0 of cost 5, while the Hamiltonian cycle 0, 2, 1, 3, 0 costs 4: the
  returned tour is not of minimum cost.
\<close>

theorem tsp_not_minimal:
  "tsp 4 tied_costs = Inr [0, 1, 2, 3, 0] \<and>
   total_cost 4 tied_costs [0, 1, 2, 3, 0] = 5 \<and>
   total_cost 4 tied_costs [0, 2, 1, 3, 0] = 4"
  by code_simp

text \<open>
  C4, at a failing input. For the driver's matrix and \<open>s = {0, 1, 2}\<close> (the mask 7), the
  table holds \<open>opt[7][1] = 1\<close>, which is \<open>cost[0][1]\<close>: the inner loop also takes
  \<open>j = 0\<close>, whose column of the table is never written and stays 0. The recurrence of
  the specification gives \<open>opt[5][2] + cost[2][1] = 5\<close> for this entry.
\<close>

theorem tsp_table_not_held_karp:
  "tsp_table 4 demo_costs ! 7 ! 1 = 1 \<and>
   held_karp_entry 4 demo_costs (tsp_table 4 demo_costs) 7 1 = 5"
  by code_simp

text \<open>
  C5, as the claim states it, fails: on the driver's matrix the tour of \<open>metric_tsp\<close>
  does not have cost 8.
\<close>

theorem demo_metric_cost_counterexample:
  "\<not> (\<exists>tour. metric_tsp (sort_key cost) 4 demo_costs = Some (Inr tour) \<and>
        total_cost 4 demo_costs tour = 8)"
proof -
  have "metric_tsp (sort_key cost) 4 demo_costs = Some (Inr [0, 3, 1, 2, 0])"
    by code_simp
  moreover have "total_cost 4 demo_costs [0, 3, 1, 2, 0] \<noteq> 8"
    by code_simp
  ultimately show ?thesis by auto
qed

text \<open>
  C5, amended. On the driver's matrix, with edges of equal cost kept in the order of
  their insertion, \<open>mst\<close> returns the edges (0,1,1), (0,3,2), (1,2,2), that is the set
  {(0,1,1), (1,2,2), (0,3,2)}, of total weight 5; \<open>tsp\<close> returns the tour 0, 1, 2, 3, 0
  of cost 8; and \<open>metric_tsp\<close> returns the tour 0, 3, 1, 2, 0 of cost 11, which is at
  most 16.
\<close>

theorem demo_run:
  "mst (sort_key cost) 4 demo_costs = Some (Inr [Edge 0 1 1, Edge 0 3 2, Edge 1 2 2]) \<and>
   set [Edge 0 1 1, Edge 0 3 2, Edge 1 2 (2::real)] = {Edge 0 1 1, Edge 1 2 2, Edge 0 3 2} \<and>
   sum_list (map cost [Edge 0 1 1, Edge 0 3 2, Edge 1 2 (2::real)]) = 5 \<and>
   tsp 4 demo_costs = Inr [0, 1, 2, 3, 0] \<and>
   total_cost 4 demo_costs [0, 1, 2, 3, 0] = 8 \<and>
   metric_tsp (sort_key cost) 4 demo_costs = Some (Inr [0, 3, 1, 2, 0]) \<and>
   total_cost 4 demo_costs [0, 3, 1, 2, 0] = 11 \<and>
   total_cost 4 demo_costs [0, 3, 1, 2, 0] \<le> 16"
  by code_simp

text \<open>
  C9. For \<open>n = 1\<close> and a matrix with \<open>cost[0][0] = 0\<close>, both solvers return the tour
  0, 0, whose cost is 0. No edge exists, so the order chosen by the sort plays no part.
\<close>

theorem single_vertex:
  "c ! 0 ! 0 = 0 \<Longrightarrow>
   tsp 1 c = Inr [0, 0] \<and> metric_tsp srt 1 c = Some (Inr [0, 0]) \<and> total_cost 1 c [0, 0] = 0"
  by (simp add: tsp_def metric_tsp_def mst_def mst_loop.simps all_edges_def metric_tour_def
      adjacency_lists_def metric_loop.simps total_cost_def)

theorem single_vertex_witness:
  "[[0::real]] ! 0 ! 0 = 0 \<and>
   tsp 1 [[0]] = Inr [0, 0] \<and>
   metric_tsp (sort_key cost) 1 [[0::real]] = Some (Inr [0, 0]) \<and>
   total_cost 1 [[0]] [0, 0] = 0"
  using single_vertex [of "[[0::real]]" "sort_key cost"] by simp

section \<open>UnionFind keeps its forest\<close>

lemma reaches_bounds: "reaches p i r \<Longrightarrow> i < length p \<and> r < length p \<and> p ! r = r"
  by (induction rule: reaches.induct) auto

lemma reaches_root_iff: "p ! i = i \<Longrightarrow> reaches p i r \<longleftrightarrow> i < length p \<and> r = i"
  by (auto elim: reaches.cases intro: reaches.intros)

lemma reaches_unique: "reaches p i r \<Longrightarrow> reaches p i r' \<Longrightarrow> r' = r"
proof (induction arbitrary: r' rule: reaches.induct)
  case (at_root i)
  then show ?case by (simp add: reaches_root_iff)
next
  case (by_link i r)
  from by_link.prems by_link.hyps(2) have "reaches p (p ! i) r'"
    by (auto elim: reaches.cases)
  then show ?case by (rule by_link.IH)
qed

lemma reaches_compress:
  assumes "reaches q i r" and "reaches q j r'"
  shows "reaches (q[i := r]) j r'"
  using assms(2)
proof (induction rule: reaches.induct)
  case (at_root j)
  show ?case
  proof (cases "j = i")
    case True
    with at_root assms(1) have "r = j" by (simp add: reaches_root_iff)
    with at_root True show ?thesis by (simp add: reaches.at_root)
  next
    case False
    with at_root show ?thesis by (simp add: reaches.at_root)
  qed
next
  case (by_link j r')
  show ?case
  proof (cases "j = i")
    case True
    from by_link.hyps have "reaches q j r'" by (rule reaches.by_link)
    with assms(1) True have eq: "r' = r" by (auto dest: reaches_unique)
    from assms(1) have rb: "r < length q" "q ! r = r" by (auto dest: reaches_bounds)
    with by_link.hyps(2) True have ne: "r \<noteq> i" by auto
    from rb ne have "reaches (q[i := r]) r r" by (simp add: reaches.at_root)
    with by_link.hyps(1) True ne eq show ?thesis
      by (auto intro: reaches.by_link)
  next
    case False
    with by_link show ?thesis by (auto intro: reaches.by_link)
  qed
qed

lemma reaches_link_roots:
  assumes a: "a < length q" "q ! a = a" and b: "b < length q" "q ! b = b"
    and x: "reaches q x r"
  shows "reaches (q[a := b]) x (if r = a then b else r)"
  using x
proof (induction rule: reaches.induct)
  case (at_root x)
  show ?case
  proof (cases "x = a")
    case True
    show ?thesis
    proof (cases "a = b")
      case True
      with a \<open>x = a\<close> show ?thesis by (simp add: reaches.at_root)
    next
      case False
      with b have "reaches (q[a := b]) b b" by (simp add: reaches.at_root)
      with a False \<open>x = a\<close> show ?thesis by (auto intro: reaches.by_link)
    qed
  next
    case False
    with at_root show ?thesis by (simp add: reaches.at_root)
  qed
next
  case (by_link x r)
  from by_link.hyps(2) a have "x \<noteq> a" by auto
  with by_link show ?case by (auto intro: reaches.by_link)
qed

lemma reaches_make_set:
  assumes "i < length q" and "reaches q x r"
  shows "\<exists>r'. reaches (q[i := i]) x r'"
  using assms(2)
proof (induction rule: reaches.induct)
  case (at_root x)
  then have "reaches (q[i := i]) x x"
    by (cases "x = i") (simp_all add: reaches.at_root)
  then show ?case ..
next
  case (by_link x r)
  show ?case
  proof (cases "x = i")
    case True
    with assms(1) have "reaches (q[i := i]) x x" by (simp add: reaches.at_root)
    then show ?thesis ..
  next
    case False
    from by_link.IH obtain r' where "reaches (q[i := i]) (q ! x) r'" ..
    with by_link.hyps False have "reaches (q[i := i]) x r'"
      by (auto intro: reaches.by_link)
    then show ?thesis ..
  qed
qed

lemma find_set_reaches:
  assumes "reaches (parent uf) i r"
  shows "\<exists>uf'. find_set uf i = Some (r, uf') \<and> rank uf' = rank uf \<and>
           length (parent uf') = length (parent uf) \<and>
           (\<forall>j r'. reaches (parent uf) j r' \<longrightarrow> reaches (parent uf') j r') \<and>
           (\<forall>j. parent uf' ! j = parent uf ! j \<or> reaches (parent uf) j (parent uf' ! j))"
  using assms
proof (induction rule: reaches.induct)
  case (at_root i)
  then show ?case by (subst find_set.simps) simp
next
  case (by_link i r)
  then obtain uf' where f: "find_set uf (parent uf ! i) = Some (r, uf')"
    and rk: "rank uf' = rank uf" and len: "length (parent uf') = length (parent uf)"
    and pres: "\<And>j r'. reaches (parent uf) j r' \<Longrightarrow> reaches (parent uf') j r'"
    and only: "\<And>j. parent uf' ! j = parent uf ! j \<or> reaches (parent uf) j (parent uf' ! j)"
    by blast
  let ?uf = "uf'\<lparr>parent := (parent uf')[i := r]\<rparr>"
  from by_link.hyps have "reaches (parent uf) i r" by (rule reaches.by_link)
  then have ir: "reaches (parent uf') i r" by (rule pres)
  have "find_set uf i = Some (r, ?uf)"
    using by_link.hyps(2) f by (subst find_set.simps) simp
  moreover have "rank ?uf = rank uf" using rk by simp
  moreover have "length (parent ?uf) = length (parent uf)" using len by simp
  moreover have "\<forall>j r'. reaches (parent uf) j r' \<longrightarrow> reaches (parent ?uf) j r'"
    using reaches_compress [OF ir] pres by simp
  moreover have "parent ?uf ! j = parent uf ! j \<or> reaches (parent uf) j (parent ?uf ! j)" for j
  proof (cases "j = i")
    case True
    from ir have "i < length (parent uf')" by (auto dest: reaches_bounds)
    with True \<open>reaches (parent uf) i r\<close> show ?thesis by simp
  next
    case False
    with only [of j] show ?thesis by simp
  qed
  ultimately show ?case by blast
qed


lemma reaches_self: "reaches p i r \<Longrightarrow> reaches p r r"
  by (auto dest: reaches_bounds intro: reaches.at_root)

lemma find_set_spec:
  assumes inv: "uf_inv uf" and i: "i < length (parent uf)"
  shows "\<exists>r uf'. find_set uf i = Some (r, uf') \<and> reaches (parent uf) i r \<and> uf_inv uf' \<and>
           rank uf' = rank uf \<and> length (parent uf') = length (parent uf) \<and>
           (\<forall>j r'. reaches (parent uf') j r' \<longleftrightarrow> reaches (parent uf) j r') \<and>
           (\<forall>j. parent uf' ! j = parent uf ! j \<or> reaches (parent uf) j (parent uf' ! j))"
proof -
  from inv i obtain r where r: "reaches (parent uf) i r" by (auto simp: uf_inv_def)
  from find_set_reaches [OF r] obtain uf' where f: "find_set uf i = Some (r, uf')"
    and rk: "rank uf' = rank uf" and len: "length (parent uf') = length (parent uf)"
    and pres: "\<And>j r'. reaches (parent uf) j r' \<Longrightarrow> reaches (parent uf') j r'"
    and only: "\<And>j. parent uf' ! j = parent uf ! j \<or> reaches (parent uf) j (parent uf' ! j)"
    by blast
  have bk: "reaches (parent uf) j r'" if h: "reaches (parent uf') j r'" for j r'
  proof -
    from h have "j < length (parent uf)" using len by (auto dest: reaches_bounds)
    with inv obtain r0 where r0: "reaches (parent uf) j r0" by (auto simp: uf_inv_def)
    from pres [OF r0] h have "r' = r0" by (rule reaches_unique)
    with r0 show ?thesis by simp
  qed
  have "uf_inv uf'"
    using inv rk len pres unfolding uf_inv_def by metis
  with f r rk len pres bk only show ?thesis by blast
qed

lemma join_spec:
  assumes inv: "uf_inv uf" and i: "i < length (parent uf)" and j: "j < length (parent uf)"
  shows "\<exists>uf' a b a' b'. join i j uf = Some uf' \<and> reaches (parent uf) i a \<and>
           reaches (parent uf) j b \<and> uf_inv uf' \<and> length (parent uf') = length (parent uf) \<and>
           ((a' = a \<and> b' = b) \<or> (a' = b \<and> b' = a)) \<and>
           (\<forall>x r. reaches (parent uf) x r \<longrightarrow> reaches (parent uf') x (relink a' b' r))"
proof -
  from find_set_spec [OF inv i] obtain a uf1 where f1: "find_set uf i = Some (a, uf1)"
    and a: "reaches (parent uf) i a" and inv1: "uf_inv uf1" and rk1: "rank uf1 = rank uf"
    and len1: "length (parent uf1) = length (parent uf)"
    and eq1: "\<And>x r. reaches (parent uf1) x r \<longleftrightarrow> reaches (parent uf) x r"
    by blast
  from j len1 have j1: "j < length (parent uf1)" by simp
  from find_set_spec [OF inv1 j1] obtain b uf2 where f2: "find_set uf1 j = Some (b, uf2)"
    and b1: "reaches (parent uf1) j b" and inv2: "uf_inv uf2" and rk2: "rank uf2 = rank uf1"
    and len2: "length (parent uf2) = length (parent uf1)"
    and eq2: "\<And>x r. reaches (parent uf2) x r \<longleftrightarrow> reaches (parent uf1) x r"
    by blast
  let ?q = "parent uf2"
  have eq: "\<And>x r. reaches ?q x r \<longleftrightarrow> reaches (parent uf) x r" by (simp add: eq1 eq2)
  from b1 have b: "reaches (parent uf) j b" by (simp add: eq1)
  from a have "reaches ?q a a" by (auto simp: eq dest: reaches_self)
  then have qa: "a < length ?q" "?q ! a = a" by (auto dest: reaches_bounds)
  from b have "reaches ?q b b" by (auto simp: eq dest: reaches_self)
  then have qb: "b < length ?q" "?q ! b = b" by (auto dest: reaches_bounds)
  have lenr: "length (rank uf2) = length ?q" using inv2 by (simp add: uf_inv_def)
  show ?thesis
  proof (cases "rank uf2 ! a > rank uf2 ! b")
    case True
    let ?uf = "uf2\<lparr>parent := ?q[b := a]\<rparr>"
    have jn: "join i j uf = Some ?uf" using f1 f2 True by (simp add: join_def)
    have map: "reaches (parent ?uf) x (relink b a r)" if "reaches (parent uf) x r" for x r
      using reaches_link_roots [OF qb qa, of x r] that by (simp add: eq relink_def)
    have "uf_inv ?uf"
      unfolding uf_inv_def
    proof (intro conjI allI impI)
      show "length (rank ?uf) = length (parent ?uf)" using lenr by simp
    next
      fix x assume "x < length (parent ?uf)"
      then have "x < length (parent uf)" using len1 len2 by simp
      with inv obtain r where "reaches (parent uf) x r" by (auto simp: uf_inv_def)
      from map [OF this] show "\<exists>r. reaches (parent ?uf) x r" ..
    qed
    moreover have "length (parent ?uf) = length (parent uf)" using len1 len2 by simp
    ultimately show ?thesis using jn a b map by blast
  next
    case False
    let ?uf3 = "uf2\<lparr>parent := ?q[a := b]\<rparr>"
    let ?uf = "if rank ?uf3 ! a = rank ?uf3 ! b
               then ?uf3\<lparr>rank := (rank ?uf3)[b := rank ?uf3 ! b + 1]\<rparr> else ?uf3"
    have jn: "join i j uf = Some ?uf" using f1 f2 False by (simp add: join_def Let_def)
    have par: "parent ?uf = ?q[a := b]" by simp
    have lenp: "length (parent ?uf) = length (parent uf)"
      unfolding par using len1 len2 by simp
    have map: "reaches (parent ?uf) x (relink a b r)" if "reaches (parent uf) x r" for x r
      unfolding par using reaches_link_roots [OF qa qb, of x r] that by (simp add: eq relink_def)
    have "uf_inv ?uf"
      unfolding uf_inv_def
    proof (intro conjI allI impI)
      show "length (rank ?uf) = length (parent ?uf)" unfolding par using lenr by simp
    next
      fix x assume "x < length (parent ?uf)"
      then have "x < length (parent uf)" unfolding lenp .
      with inv obtain r where "reaches (parent uf) x r" by (auto simp: uf_inv_def)
      from map [OF this] show "\<exists>r. reaches (parent ?uf) x r" ..
    qed
    moreover note lenp
    ultimately show ?thesis using jn a b map by blast
  qed
qed


lemma same_set_bounds: "same_set uf x y \<Longrightarrow> x < length (parent uf) \<and> y < length (parent uf)"
  by (auto simp: same_set_def dest: reaches_bounds)

lemma same_set_refl: "uf_inv uf \<Longrightarrow> x < length (parent uf) \<Longrightarrow> same_set uf x x"
  by (auto simp: same_set_def uf_inv_def)

lemma same_set_sym: "same_set uf x y \<Longrightarrow> same_set uf y x"
  by (auto simp: same_set_def)

lemma same_set_trans: "same_set uf x y \<Longrightarrow> same_set uf y z \<Longrightarrow> same_set uf x z"
  unfolding same_set_def by (metis reaches_unique)

lemma same_set_cong:
  assumes "\<And>x r. reaches (parent uf') x r \<longleftrightarrow> reaches (parent uf) x r"
  shows "same_set uf' x y \<longleftrightarrow> same_set uf x y"
  by (simp add: same_set_def assms)

lemma relink_merge:
  assumes inv: "uf_inv uf"
    and a: "reaches (parent uf) i a" and b: "reaches (parent uf) j b"
    and ab: "(a' = a \<and> b' = b) \<or> (a' = b \<and> b' = a)"
    and map: "\<And>x r. reaches (parent uf) x r \<Longrightarrow> reaches (parent uf') x (relink a' b' r)"
    and len: "length (parent uf') = length (parent uf)"
  shows "same_set uf' x y \<longleftrightarrow>
           same_set uf x y \<or> (same_set uf x i \<and> same_set uf j y) \<or> (same_set uf x j \<and> same_set uf i y)"
proof
  assume "same_set uf' x y"
  then obtain r' where x': "reaches (parent uf') x r'" and y': "reaches (parent uf') y r'"
    by (auto simp: same_set_def)
  from x' y' len have "x < length (parent uf)" "y < length (parent uf)"
    by (auto dest: reaches_bounds)
  with inv obtain rx ry where rx: "reaches (parent uf) x rx" and ry: "reaches (parent uf) y ry"
    unfolding uf_inv_def by blast
  from x' map [OF rx] have ex: "relink a' b' rx = r'" by (rule reaches_unique)
  from y' map [OF ry] have ey: "relink a' b' ry = r'" by (rule reaches_unique)
  show "same_set uf x y \<or> (same_set uf x i \<and> same_set uf j y) \<or> (same_set uf x j \<and> same_set uf i y)"
  proof (cases "rx = ry")
    case True
    with rx ry show ?thesis by (auto simp: same_set_def)
  next
    case False
    with ex ey have "(rx = a' \<and> ry = b') \<or> (rx = b' \<and> ry = a')"
      by (auto simp: relink_def split: if_splits)
    with ab have "(rx = a \<and> ry = b) \<or> (rx = b \<and> ry = a)" by auto
    with rx ry a b show ?thesis by (auto simp: same_set_def)
  qed
next
  assume h: "same_set uf x y \<or> (same_set uf x i \<and> same_set uf j y) \<or> (same_set uf x j \<and> same_set uf i y)"
  have m: "relink a' b' a = relink a' b' b" using ab by (auto simp: relink_def)
  from h consider "same_set uf x y" | "same_set uf x i" "same_set uf j y"
    | "same_set uf x j" "same_set uf i y" by blast
  then show "same_set uf' x y"
  proof cases
    case 1
    then show ?thesis unfolding same_set_def using map by blast
  next
    case 2
    with a b have "reaches (parent uf) x a" "reaches (parent uf) y b"
      unfolding same_set_def by (metis reaches_unique)+
    from map [OF this(1)] map [OF this(2)] m show ?thesis by (auto simp: same_set_def)
  next
    case 3
    with a b have "reaches (parent uf) x b" "reaches (parent uf) y a"
      unfolding same_set_def by (metis reaches_unique)+
    from map [OF this(1)] map [OF this(2)] m show ?thesis by (auto simp: same_set_def)
  qed
qed

lemma roots_reaches: "r \<in> roots uf \<longleftrightarrow> reaches (parent uf) r r"
  by (auto simp: roots_def reaches_root_iff dest: reaches_bounds)

lemma finite_roots: "finite (roots uf)"
  by (simp add: roots_def)

lemma roots_cong:
  assumes "\<And>x r. reaches (parent uf') x r \<longleftrightarrow> reaches (parent uf) x r"
  shows "roots uf' = roots uf"
  by (auto simp: roots_reaches assms)

lemma relink_roots:
  assumes inv: "uf_inv uf"
    and a: "reaches (parent uf) i a" and b: "reaches (parent uf) j b" and ne: "a \<noteq> b"
    and ab: "(a' = a \<and> b' = b) \<or> (a' = b \<and> b' = a)"
    and map: "\<And>x r. reaches (parent uf) x r \<Longrightarrow> reaches (parent uf') x (relink a' b' r)"
    and len: "length (parent uf') = length (parent uf)"
  shows "roots uf' = roots uf - {a'}" and "a' \<in> roots uf"
proof -
  from a b ab have ra: "reaches (parent uf) a' a'" and rb: "reaches (parent uf) b' b'"
    by (auto dest: reaches_self)
  from ab ne have ne': "a' \<noteq> b'" by auto
  show "a' \<in> roots uf" using ra by (simp add: roots_reaches)
  show "roots uf' = roots uf - {a'}"
  proof (intro set_eqI iffI)
    fix r assume "r \<in> roots uf'"
    then have r': "reaches (parent uf') r r" by (simp add: roots_reaches)
    then have "r < length (parent uf)" using len by (auto dest: reaches_bounds)
    with inv obtain r0 where r0: "reaches (parent uf) r r0" by (auto simp: uf_inv_def)
    from r' map [OF r0] have e: "relink a' b' r0 = r" by (rule reaches_unique)
    have "r0 \<noteq> a'"
    proof
      assume "r0 = a'"
      with e have "r = b'" by (simp add: relink_def)
      with r0 rb have "r0 = b'" by (auto dest: reaches_unique)
      with \<open>r0 = a'\<close> ne' show False by simp
    qed
    with e have "r0 = r" by (simp add: relink_def)
    with r0 \<open>r0 \<noteq> a'\<close> show "r \<in> roots uf - {a'}" by (simp add: roots_reaches)
  next
    fix r assume "r \<in> roots uf - {a'}"
    then have "reaches (parent uf) r r" "r \<noteq> a'" by (auto simp: roots_reaches)
    from map [OF this(1)] this(2) show "r \<in> roots uf'" by (simp add: roots_reaches relink_def)
  qed
qed


lemma fold_make_set:
  "k \<le> n \<Longrightarrow>
   length (parent (fold make_set [0..<k] \<lparr>parent = replicate n 0, rank = replicate n 0\<rparr>)) = n \<and>
   length (rank (fold make_set [0..<k] \<lparr>parent = replicate n 0, rank = replicate n 0\<rparr>)) = n \<and>
   (\<forall>i<k. parent (fold make_set [0..<k] \<lparr>parent = replicate n 0, rank = replicate n 0\<rparr>) ! i = i)"
proof (induction k)
  case 0
  then show ?case by simp
next
  case (Suc k)
  then show ?case
    by (auto simp: make_set_def nth_list_update less_Suc_eq)
qed

lemma UnionFind_init_props:
  "length (parent (UnionFind_init n)) = n" "length (rank (UnionFind_init n)) = n"
  "i < n \<Longrightarrow> parent (UnionFind_init n) ! i = i"
  using fold_make_set [of n n] by (auto simp: UnionFind_init_def)

lemma UnionFind_init_reaches: "reaches (parent (UnionFind_init n)) i r \<longleftrightarrow> i < n \<and> r = i"
proof
  assume h: "reaches (parent (UnionFind_init n)) i r"
  then have "i < n" by (auto dest: reaches_bounds simp: UnionFind_init_props)
  with h show "i < n \<and> r = i" by (simp add: reaches_root_iff UnionFind_init_props)
next
  assume "i < n \<and> r = i"
  then show "reaches (parent (UnionFind_init n)) i r"
    by (auto intro: reaches.at_root simp: UnionFind_init_props)
qed

lemma UnionFind_init_inv: "uf_inv (UnionFind_init n)"
  by (auto simp: uf_inv_def UnionFind_init_props UnionFind_init_reaches)

lemma make_set_inv:
  assumes "uf_inv uf" and "i < length (parent uf)"
  shows "uf_inv (make_set i uf)"
  using assms reaches_make_set [of i "parent uf"]
  by (auto simp: uf_inv_def make_set_def)

lemma join_same_set:
  assumes inv: "uf_inv uf" and i: "i < length (parent uf)" and j: "j < length (parent uf)"
  shows "\<exists>uf'. join i j uf = Some uf' \<and> uf_inv uf' \<and> length (parent uf') = length (parent uf) \<and>
           (\<forall>x y. same_set uf' x y \<longleftrightarrow>
              same_set uf x y \<or> (same_set uf x i \<and> same_set uf j y) \<or> (same_set uf x j \<and> same_set uf i y)) \<and>
           (\<not> same_set uf i j \<longrightarrow> card (roots uf') + 1 = card (roots uf))"
proof -
  from join_spec [OF inv i j] obtain uf' a b a' b' where jn: "join i j uf = Some uf'"
    and a: "reaches (parent uf) i a" and b: "reaches (parent uf) j b"
    and inv': "uf_inv uf'" and len: "length (parent uf') = length (parent uf)"
    and ab: "(a' = a \<and> b' = b) \<or> (a' = b \<and> b' = a)"
    and map: "\<And>x r. reaches (parent uf) x r \<Longrightarrow> reaches (parent uf') x (relink a' b' r)"
    by blast
  note m = relink_merge [OF inv a b ab map len]
  have "card (roots uf') + 1 = card (roots uf)" if ns: "\<not> same_set uf i j"
  proof -
    from ns a b have ne: "a \<noteq> b" by (auto simp: same_set_def)
    from relink_roots [OF inv a b ne ab map len]
    have "roots uf' = roots uf - {a'}" "a' \<in> roots uf" by auto
    then show ?thesis using finite_roots [of uf]
      by (simp add: card_Diff_singleton) (metis card_gt_0_iff empty_iff Suc_pred)
  qed
  with jn inv' len m show ?thesis by blast
qed

text \<open>
  C10. On a UnionFind that satisfies the forest invariant, with \<open>i\<close> and \<open>j\<close> in its
  universe: the constructor and \<open>make_set\<close> give a forest; \<open>find_set i\<close> returns, it
  returns the root that the parent links of \<open>i\<close> reach, it keeps the invariant, the size
  of the universe and which elements share a root, and every parent link it changes
  points at the old root of its element afterwards; \<open>join i j\<close> returns, it keeps the
  invariant and the universe, it puts \<open>i\<close> and \<open>j\<close> into one set, two elements share a
  root afterwards exactly if they did before or one was with \<open>i\<close> and the other with
  \<open>j\<close>, so no other set changes; when \<open>i\<close> and \<open>j\<close> were already together the
  partition is unchanged; and \<open>find_set\<close> returns on the result for every element.
\<close>

theorem union_find_forest:
  assumes "uf_inv uf" and "i < length (parent uf)" and "j < length (parent uf)"
  shows "uf_inv (UnionFind_init n) \<and> uf_inv (make_set i uf) \<and>
    (\<exists>r uf'. find_set uf i = Some (r, uf') \<and> reaches (parent uf) i r \<and> uf_inv uf' \<and>
       length (parent uf') = length (parent uf) \<and>
       (\<forall>x y. same_set uf' x y \<longleftrightarrow> same_set uf x y) \<and>
       (\<forall>x. parent uf' ! x = parent uf ! x \<or> reaches (parent uf) x (parent uf' ! x))) \<and>
    (\<exists>uf'. join i j uf = Some uf' \<and> uf_inv uf' \<and> length (parent uf') = length (parent uf) \<and>
       same_set uf' i j \<and>
       (\<forall>x y. same_set uf' x y \<longleftrightarrow>
          same_set uf x y \<or> (same_set uf x i \<and> same_set uf j y) \<or> (same_set uf x j \<and> same_set uf i y)) \<and>
       (same_set uf i j \<longrightarrow> (\<forall>x y. same_set uf' x y \<longleftrightarrow> same_set uf x y)) \<and>
       (\<forall>x < length (parent uf'). \<exists>r uf''. find_set uf' x = Some (r, uf'')))"
proof -
  from find_set_spec [OF assms(1,2)] obtain r uf1 where f: "find_set uf i = Some (r, uf1)"
    and r: "reaches (parent uf) i r" and inv1: "uf_inv uf1"
    and len1: "length (parent uf1) = length (parent uf)"
    and eq1: "\<And>x r'. reaches (parent uf1) x r' \<longleftrightarrow> reaches (parent uf) x r'"
    and only: "\<And>x. parent uf1 ! x = parent uf ! x \<or> reaches (parent uf) x (parent uf1 ! x)"
    by blast
  have s1: "\<And>x y. same_set uf1 x y \<longleftrightarrow> same_set uf x y" by (rule same_set_cong) (rule eq1)
  from join_same_set [OF assms] obtain uf2 where jn: "join i j uf = Some uf2"
    and inv2: "uf_inv uf2" and len2: "length (parent uf2) = length (parent uf)"
    and m: "\<And>x y. same_set uf2 x y \<longleftrightarrow>
          same_set uf x y \<or> (same_set uf x i \<and> same_set uf j y) \<or> (same_set uf x j \<and> same_set uf i y)"
    by blast
  have ii: "same_set uf i i" and jj: "same_set uf j j" using assms by (auto intro: same_set_refl)
  have ij: "same_set uf2 i j" using m ii jj by blast
  have keep: "\<And>x y. same_set uf2 x y \<longleftrightarrow> same_set uf x y" if "same_set uf i j"
    using m that by (meson same_set_sym same_set_trans)
  have fin: "\<exists>r uf''. find_set uf2 x = Some (r, uf'')" if "x < length (parent uf2)" for x
    using find_set_spec [OF inv2 that] by blast
  show ?thesis
    using UnionFind_init_inv make_set_inv [OF assms(1,2)] f r inv1 len1 s1 only jn inv2 len2 ij m keep fin
    by blast
qed

text \<open>A forest on four elements: 2 hangs under 1 under the root 0, and 3 is a root.\<close>

lemma small_forest_inv: "uf_inv \<lparr>parent = [0, 0, 1, 3], rank = [2, 0, 0, 0]\<rparr>"
proof -
  let ?p = "[0, 0, 1, 3::nat]"
  have r0: "reaches ?p 0 0" by (rule reaches.at_root) simp_all
  have r1: "reaches ?p 1 0" using reaches.by_link [of 1 ?p 0] r0 by simp
  have r2: "reaches ?p 2 0" using reaches.by_link [of 2 ?p 0] r1 by simp
  have r3: "reaches ?p 3 3" by (rule reaches.at_root) simp_all
  have "\<exists>r. reaches ?p i r" if "i < 4" for i
  proof -
    from that have "i = 0 \<or> i = 1 \<or> i = 2 \<or> i = 3" by arith
    with r0 r1 r2 r3 show ?thesis by blast
  qed
  then show ?thesis by (simp add: uf_inv_def)
qed

theorem union_find_forest_witness:
  "uf_inv \<lparr>parent = [0, 0, 1, 3], rank = [2, 0, 0, 0]\<rparr> \<and>
   2 < length (parent \<lparr>parent = [0, 0, 1, 3], rank = [2, 0, 0, 0]\<rparr>) \<and>
   3 < length (parent \<lparr>parent = [0, 0, 1, 3], rank = [2, 0, 0, 0]\<rparr>) \<and>
   find_set \<lparr>parent = [0, 0, 1, 3], rank = [2, 0, 0, 0]\<rparr> 2 =
     Some (0, \<lparr>parent = [0, 0, 0, 3], rank = [2, 0, 0, 0]\<rparr>) \<and>
   join 2 3 \<lparr>parent = [0, 0, 1, 3], rank = [2, 0, 0, 0]\<rparr> =
     Some \<lparr>parent = [0, 0, 0, 0], rank = [2, 0, 0, 0]\<rparr> \<and>
   (\<exists>uf'. join 2 3 \<lparr>parent = [0, 0, 1, 3], rank = [2, 0, 0, 0]\<rparr> = Some uf' \<and> uf_inv uf' \<and>
      same_set uf' 2 3)"
proof -
  let ?uf = "\<lparr>parent = [0, 0, 1, 3], rank = [2, 0, 0, 0]\<rparr>"
  have b: "2 < length (parent ?uf)" "3 < length (parent ?uf)" by simp_all
  have f: "find_set ?uf 2 = Some (0, \<lparr>parent = [0, 0, 0, 3], rank = [2, 0, 0, 0]\<rparr>)"
    by code_simp
  have j: "join 2 3 ?uf = Some \<lparr>parent = [0, 0, 0, 0], rank = [2, 0, 0, 0]\<rparr>"
    by code_simp
  from union_find_forest [OF small_forest_inv b]
  have "\<exists>uf'. join 2 3 ?uf = Some uf' \<and> uf_inv uf' \<and> same_set uf' 2 3" by blast
  with small_forest_inv b f j show ?thesis by blast
qed

section \<open>Kruskal: the scan builds a spanning tree\<close>










lemma links_append: "links (xs @ ys) = links xs \<union> links ys"
  by (auto simp: links_def)















lemma set_all_edges:
  "set (all_edges n c) = {e. head e < tail e \<and> tail e < n \<and> cost e = c ! head e ! tail e}"
proof (intro set_eqI iffI)
  fix e :: "'a Edge"
  assume "e \<in> set (all_edges n c)"
  then show "e \<in> {e. head e < tail e \<and> tail e < n \<and> cost e = c ! head e ! tail e}"
    by (auto simp: all_edges_def Edge_def)
next
  fix e :: "'a Edge"
  assume "e \<in> {e. head e < tail e \<and> tail e < n \<and> cost e = c ! head e ! tail e}"
  then have h: "head e < tail e" "tail e < n" "cost e = c ! head e ! tail e" by auto
  then have "e = Edge (head e) (tail e) (c ! head e ! tail e)" by (simp add: Edge_def)
  with h show "e \<in> set (all_edges n c)"
    unfolding all_edges_def by (auto intro!: bexI [of _ "head e"] image_eqI [of _ _ "tail e"])
qed



lemma all_edges_inj:
  "e \<in> set (all_edges n c) \<Longrightarrow> f \<in> set (all_edges n c) \<Longrightarrow> endpoints e = endpoints f \<Longrightarrow> e = f"
  by (auto simp: set_all_edges endpoints_def)




section \<open>Kruskal: the tree has minimum weight\<close>












section \<open>The claims about the spanning tree\<close>








section \<open>The traversal visits every vertex once\<close>

















section \<open>A spanning tree weighs no more than a tour\<close>























section \<open>The traversal costs at most twice the tree\<close>









section \<open>The tour of the approximation against every tour\<close>








section \<open>The exact solver returns a tour on costs within range\<close>












section \<open>The claim about the reconstruction\<close>






section \<open>The claim about the approximation\<close>






end
